theory Spec2Isabelle
  imports Complex_Main "HOL-Library.Word" "HOL-Library.AList"
begin

section \<open>Data model of the reliable-UDP layer (reliableudp.h)\<close>

text \<open>
  Conventions of the embedding.
  \<^item> \<open>quint32\<close> is \<open>32 word\<close>: \<open>+\<close> and \<open>-\<close> wrap, \<open><\<close> and \<open>\<le>\<close> compare unsigned.
  \<^item> The \<open>std::atomic<int>\<close> statistics counters are \<open>32 word\<close> read with \<open>sint\<close>.
  \<^item> \<open>double\<close> is idealised as \<open>real\<close>: rounding, infinities and NaN are not modelled.
  \<^item> A valid \<open>QDateTime\<close> is its number of milliseconds since the epoch, an \<open>int\<close> (the
    ends of the range of \<open>QDateTime\<close> are not modelled); the null
    \<open>QDateTime\<close> of a default-constructed packet is \<open>None\<close>. One run of a slot reads the
    clock as the single value \<open>now\<close>.
  \<^item> A \<open>QHash\<close> is an association list with distinct keys, read with \<open>map_of\<close>; the order
    of the list stands for the unspecified iteration order of the hash.
  \<^item> Signals are appended to a log in the order they are emitted; every call of
    \<open>writeDatagram\<close> is appended to a log together with its outcome, and the transport is
    an oracle telling whether the n-th call succeeds (returns something other than -1).
  \<^item> The serialisation of an outgoing document (\<open>toJson\<close>, \<open>QJsonDocument::toJson\<close>) is not
    modelled: an outgoing datagram is represented by the packet it encodes.
\<close>

type_synonym quint32 = "32 word"
type_synonym counter = "32 word"
type_synonym msecs = int

record TelemetryPacket =
  sequenceNumber :: quint32
  timestamp :: "msecs option"
  latitude :: real
  longitude :: real
  speed :: real
  status :: string
  needsAck :: bool

text \<open>The default constructor \<open>TelemetryPacket()\<close>.\<close>

definition TelemetryPacket0 :: TelemetryPacket where
  "TelemetryPacket0 =
     \<lparr>sequenceNumber = 0, timestamp = None, latitude = 0, longitude = 0, speed = 0,
      status = [], needsAck = False\<rparr>"

record AckPacket =
  ack_sequenceNumber :: quint32
  ack_timestamp :: msecs

subsection \<open>Incoming JSON documents\<close>

datatype QJsonValue =
  JUndefined | JNull | JBool bool | JDouble real | JString string | JContainer

type_synonym QJsonObject = "(string \<times> QJsonValue) list"

datatype QJsonDocument = ParseError | DocArray | DocObject QJsonObject

definition object :: "QJsonDocument \<Rightarrow> QJsonObject" where
  "object doc = (case doc of DocObject obj \<Rightarrow> obj | _ \<Rightarrow> [])"

definition contains_key :: "QJsonObject \<Rightarrow> string \<Rightarrow> bool" where
  "contains_key obj k = (map_of obj k \<noteq> None)"

definition value_at :: "QJsonObject \<Rightarrow> string \<Rightarrow> QJsonValue" where
  "value_at obj k = (case map_of obj k of Some v \<Rightarrow> v | None \<Rightarrow> JUndefined)"

definition toString :: "QJsonValue \<Rightarrow> string" where
  "toString v = (case v of JString s \<Rightarrow> s | _ \<Rightarrow> [])"

definition toBool :: "QJsonValue \<Rightarrow> bool" where
  "toBool v = (case v of JBool b \<Rightarrow> b | _ \<Rightarrow> False)"

definition toDouble :: "QJsonValue \<Rightarrow> real" where
  "toDouble v = (case v of JDouble d \<Rightarrow> d | _ \<Rightarrow> 0)"

text \<open>\<open>QJsonValue::toInt()\<close>: the number when it is integral and fits an \<open>int\<close>, else 0.\<close>

definition toInt :: "QJsonValue \<Rightarrow> int" where
  "toInt v =
     (case v of
        JDouble d \<Rightarrow>
          (if of_int \<lfloor>d\<rfloor> = d \<and> - (2 ^ 31) \<le> \<lfloor>d\<rfloor> \<and> \<lfloor>d\<rfloor> < 2 ^ 31 then \<lfloor>d\<rfloor> else 0)
      | _ \<Rightarrow> 0)"

text \<open>
  \<open>TelemetryPacket::fromJson\<close>. The conversion \<open>toVariant().toLongLong()\<close> of the
  timestamp field belongs to the Qt library and is the parameter \<open>toLongLong\<close>.
\<close>

definition fromJson :: "(QJsonValue \<Rightarrow> int) \<Rightarrow> QJsonObject \<Rightarrow> TelemetryPacket" where
  "fromJson toLongLong obj =
     \<lparr>sequenceNumber = word_of_int (toInt (value_at obj ''seq'')),
      timestamp = Some (toLongLong (value_at obj ''timestamp'')),
      latitude = toDouble (value_at obj ''latitude''),
      longitude = toDouble (value_at obj ''longitude''),
      speed = toDouble (value_at obj ''speed''),
      status = toString (value_at obj ''status''),
      needsAck = toBool (value_at obj ''needsAck'')\<rparr>"

section \<open>Receiver (ReliableUdpReceiver)\<close>

datatype receiver_signal =
  TelemetryDataReceived TelemetryPacket | StatisticsUpdated

record AckDatagram =
  ack :: AckPacket
  toAddress :: string
  toPort :: "16 word"
  written :: bool

record Receiver =
  receivedPackets :: "(quint32 \<times> TelemetryPacket) list"
  expectedSequenceNumber :: quint32
  lastValidSequenceNumber :: quint32
  lastValidPacket :: TelemetryPacket
  interpolationEnabled :: bool
  maxBufferSize :: int
  packetsReceived :: counter
  packetsLost :: counter
  packetsInterpolated :: counter
  acksSent :: counter
  socketLockHeld :: bool
  signals :: "receiver_signal list"
  ackWrites :: "AckDatagram list"

text \<open>
  The members that the functions below never read are left out: the socket and the
  timers, \<open>m_processingQueue\<close>, the listening port and flag, and \<open>m_packetTimeoutMs\<close>
  (\<open>checkForMissingPackets\<close> computes a cutoff time from it and does not use it).
  \<open>Receiver0\<close> is the state the constructor leaves.
\<close>

definition Receiver0 :: Receiver where
  "Receiver0 =
     \<lparr>receivedPackets = [], expectedSequenceNumber = 1, lastValidSequenceNumber = 0,
      lastValidPacket = TelemetryPacket0, interpolationEnabled = True,
      maxBufferSize = 1000, packetsReceived = 0, packetsLost = 0,
      packetsInterpolated = 0, acksSent = 0, socketLockHeld = False,
      signals = [], ackWrites = []\<rparr>"

definition emit :: "receiver_signal \<Rightarrow> Receiver \<Rightarrow> Receiver" where
  "emit s st = st\<lparr>signals := signals st @ [s]\<rparr>"

definition updateStatistics :: "Receiver \<Rightarrow> Receiver" where
  "updateStatistics st = emit StatisticsUpdated st"

definition processReceivedPacket :: "TelemetryPacket \<Rightarrow> Receiver \<Rightarrow> Receiver" where
  "processReceivedPacket p st =
     (let st1 = st\<lparr>packetsReceived := packetsReceived st + 1\<rparr>;
          st2 = (if sequenceNumber p \<ge> lastValidSequenceNumber st1
                 then st1\<lparr>lastValidSequenceNumber := sequenceNumber p, lastValidPacket := p\<rparr>
                 else st1);
          st3 = emit (TelemetryDataReceived p) st2;
          st4 = (if sequenceNumber p \<ge> expectedSequenceNumber st3
                 then st3\<lparr>expectedSequenceNumber := sequenceNumber p + 1\<rparr>
                 else st3)
      in updateStatistics st4)"

text \<open>\<open>m_receivedPackets.contains(seq)\<close> and \<open>m_receivedPackets[seq]\<close> on a present key.\<close>

definition buffered :: "Receiver \<Rightarrow> quint32 \<Rightarrow> TelemetryPacket option" where
  "buffered st seq = map_of (receivedPackets st) seq"

subsection \<open>Interpolation\<close>

lemma unat_inc: "(i::quint32) < m \<Longrightarrow> unat (i + 1) = Suc (unat i)"
  by (metis (no_types, lifting) add.commute add_0 add_diff_cancel_left'
      add_uminus_conv_diff unatSuc word_order.extremum_strict)

lemma unat_dec: "0 < (i::quint32) \<Longrightarrow> unat (i - 1) = unat i - 1"
  by (simp add: unat_minus_one)

text \<open>
  The backward search
  \<^verbatim>\<open>for (quint32 i = sequenceNumber - 1; i > 0 && i > sequenceNumber - 10; --i)\<close>
  from the loop variable \<open>i\<close> on; the bound \<open>sequenceNumber - 10\<close> is computed in
  \<open>quint32\<close> and wraps when \<open>sequenceNumber < 10\<close>.
\<close>

function findBefore :: "Receiver \<Rightarrow> quint32 \<Rightarrow> quint32 \<Rightarrow> TelemetryPacket option" where
  "findBefore st seqNo i =
     (if i > 0 \<and> i > seqNo - 10
      then (case buffered st i of
              Some p \<Rightarrow> Some p
            | None \<Rightarrow> findBefore st seqNo (i - 1))
      else None)"
  by pat_completeness auto
termination
  by (relation "measure (\<lambda>(st, s, i). unat i)") (auto simp: unat_dec unat_gt_0)

text \<open>
  The forward search
  \<^verbatim>\<open>for (quint32 i = sequenceNumber + 1; i < sequenceNumber + 10; ++i)\<close>.
\<close>

function findAfter :: "Receiver \<Rightarrow> quint32 \<Rightarrow> quint32 \<Rightarrow> TelemetryPacket option" where
  "findAfter st seqNo i =
     (if i < seqNo + 10
      then (case buffered st i of
              Some p \<Rightarrow> Some p
            | None \<Rightarrow> findAfter st seqNo (i + 1))
      else None)"
  by pat_completeness auto
termination
  by (relation "measure (\<lambda>(st, s, i). unat (s + 10) - unat i)")
    (auto simp: unat_inc word_less_nat_alt)

declare findBefore.simps [simp del] findAfter.simps [simp del]

definition interpolatePacket :: "msecs \<Rightarrow> quint32 \<Rightarrow> Receiver \<Rightarrow> TelemetryPacket" where
  "interpolatePacket now seqNo st =
     (let interpolated = TelemetryPacket0
            \<lparr>sequenceNumber := seqNo, timestamp := Some now, status := ''INTERPOLATED''\<rparr>
      in case (findBefore st seqNo (seqNo - 1), findAfter st seqNo (seqNo + 1)) of
           (Some beforePacket, Some afterPacket) \<Rightarrow>
             (let factor = real (unat (seqNo - sequenceNumber beforePacket)) /
                           real (unat (sequenceNumber afterPacket - sequenceNumber beforePacket))
              in interpolated
                   \<lparr>latitude := latitude beforePacket +
                      factor * (latitude afterPacket - latitude beforePacket),
                    longitude := longitude beforePacket +
                      factor * (longitude afterPacket - longitude beforePacket),
                    speed := speed beforePacket +
                      factor * (speed afterPacket - speed beforePacket)\<rparr>)
         | (Some beforePacket, None) \<Rightarrow>
             interpolated\<lparr>latitude := latitude beforePacket,
                          longitude := longitude beforePacket,
                          speed := speed beforePacket\<rparr>
         | (None, Some afterPacket) \<Rightarrow>
             interpolated\<lparr>latitude := latitude afterPacket,
                          longitude := longitude afterPacket,
                          speed := speed afterPacket\<rparr>
         | (None, None) \<Rightarrow>
             interpolated\<lparr>latitude := latitude (lastValidPacket st),
                          longitude := longitude (lastValidPacket st),
                          speed := speed (lastValidPacket st)\<rparr>)"

subsection \<open>The periodic gap check\<close>

text \<open>The body of the loop of \<open>checkForMissingPackets\<close> for one value of \<open>seq\<close>.\<close>

definition missingStep :: "msecs \<Rightarrow> quint32 \<Rightarrow> Receiver \<Rightarrow> Receiver" where
  "missingStep now seq st =
     (if buffered st seq = None
      then (let st1 = st\<lparr>packetsLost := packetsLost st + 1\<rparr>;
                st2 = (if interpolationEnabled st1
                       then (let st' = emit (TelemetryDataReceived (interpolatePacket now seq st1)) st1
                             in st'\<lparr>packetsInterpolated := packetsInterpolated st' + 1\<rparr>)
                       else emit (TelemetryDataReceived
                              ((lastValidPacket st1)\<lparr>sequenceNumber := seq, timestamp := Some now\<rparr>)) st1)
            in st2\<lparr>expectedSequenceNumber := seq + 1\<rparr>)
      else st)"

lemma missingStep_lastValid [simp]:
  "lastValidSequenceNumber (missingStep now seq st) = lastValidSequenceNumber st"
  by (simp add: missingStep_def Let_def emit_def)

text \<open>
  \<^verbatim>\<open>for (quint32 seq = m_expectedSequenceNumber; seq < m_lastValidSequenceNumber; ++seq)\<close>
  from the loop variable \<open>seq\<close> on.
\<close>

function missingLoop :: "msecs \<Rightarrow> quint32 \<Rightarrow> Receiver \<Rightarrow> Receiver" where
  "missingLoop now seq st =
     (if seq < lastValidSequenceNumber st
      then missingLoop now (seq + 1) (missingStep now seq st)
      else st)"
  by pat_completeness auto
termination
  by (relation "measure (\<lambda>(now, seq, st). unat (lastValidSequenceNumber st) - unat seq)")
    (auto simp: unat_inc word_less_nat_alt)

declare missingLoop.simps [simp del]

definition checkForMissingPackets :: "msecs \<Rightarrow> Receiver \<Rightarrow> Receiver" where
  "checkForMissingPackets now st =
     updateStatistics (missingLoop now (expectedSequenceNumber st) st)"

subsection \<open>Buffer cleanup\<close>

text \<open>
  \<^verbatim>\<open>for (int i = 0; i < toRemove; ++i) m_receivedPackets.remove(keys[i]);\<close>
  from the loop variable \<open>i\<close> on. \<open>keys[i]\<close> beyond the end of the list has no defined
  behaviour: the model gives \<open>None\<close>.
\<close>

function removeLoop ::
  "quint32 list \<Rightarrow> int \<Rightarrow> int \<Rightarrow> (quint32 \<times> TelemetryPacket) list
     \<Rightarrow> (quint32 \<times> TelemetryPacket) list option" where
  "removeLoop keys toRemove i buf =
     (if i < toRemove
      then (if 0 \<le> i \<and> i < int (length keys)
            then removeLoop keys toRemove (i + 1) (AList.delete (keys ! nat i) buf)
            else None)
      else Some buf)"
  by pat_completeness auto
termination
  by (relation "measure (\<lambda>(keys, toRemove, i, buf). nat (toRemove - i))") auto

declare removeLoop.simps [simp del]

definition cleanupOldPackets :: "Receiver \<Rightarrow> Receiver option" where
  "cleanupOldPackets st =
     (if int (length (receivedPackets st)) > maxBufferSize st
      then (let keys = sort (map fst (receivedPackets st));
                toRemove = int (length (receivedPackets st)) - maxBufferSize st
            in map_option (\<lambda>buf. st\<lparr>receivedPackets := buf\<rparr>)
                 (removeLoop keys toRemove 0 (receivedPackets st)))
      else Some st)"

subsection \<open>Statistics\<close>

text \<open>
  \<^verbatim>\<open>int total = m_packetsReceived + m_packetsLost;
  return total > 0 ? (double(m_packetsLost) / total) * 100.0 : 0.0;\<close>
  The sum is taken in 32 bits; where it would leave the range of \<open>int\<close> the C++ has no
  defined result and the model wraps.
\<close>

definition getPacketLossRate :: "Receiver \<Rightarrow> real" where
  "getPacketLossRate st =
     (let total = packetsReceived st + packetsLost st
      in if 0 < sint total
         then (real_of_int (sint (packetsLost st)) / real_of_int (sint total)) * 100
         else 0)"

subsection \<open>The datagram path\<close>

text \<open>
  \<open>m_socketLock\<close> is a default-constructed, hence non-recursive, \<open>QMutex\<close>: a thread that
  locks it while holding it never returns from \<open>lock()\<close>. It is the one mutex of the two
  classes that a function acquires while a caller of it may hold it, so it is the one
  whose state is modelled; every other lock is taken free and released at the end of
  its scope. \<open>Deadlocked st\<close> is a call that never returns and leaves the
  receiver in \<open>st\<close> for ever.
\<close>

datatype 'a outcome = Returned 'a | Deadlocked 'a

definition lockSocket :: "Receiver \<Rightarrow> Receiver outcome" where
  "lockSocket st =
     (if socketLockHeld st then Deadlocked st else Returned (st\<lparr>socketLockHeld := True\<rparr>))"

definition unlockSocket :: "Receiver \<Rightarrow> Receiver" where
  "unlockSocket st = st\<lparr>socketLockHeld := False\<rparr>"

definition sendAck ::
  "(nat \<Rightarrow> bool) \<Rightarrow> msecs \<Rightarrow> quint32 \<Rightarrow> string \<Rightarrow> 16 word \<Rightarrow> Receiver \<Rightarrow> Receiver outcome" where
  "sendAck transport now seqNo sender port st =
     (let ackPacket = \<lparr>ack_sequenceNumber = seqNo, ack_timestamp = now\<rparr>
      in case lockSocket st of
           Deadlocked s \<Rightarrow> Deadlocked s
         | Returned st1 \<Rightarrow>
             (let sent = transport (length (ackWrites st1));
                  st2 = st1\<lparr>ackWrites := ackWrites st1 @
                          [\<lparr>ack = ackPacket, toAddress = sender, toPort = port,
                            written = sent\<rparr>]\<rparr>;
                  st3 = (if sent then st2\<lparr>acksSent := acksSent st2 + 1\<rparr> else st2)
              in Returned (unlockSocket st3)))"

record Datagram =
  isValid :: bool
  parsed :: QJsonDocument
  senderAddress :: string
  senderPort :: "16 word"

text \<open>
  The loop \<^verbatim>\<open>while (m_socket->hasPendingDatagrams())\<close> over the datagrams queued on the
  socket; \<open>parsed\<close> is what \<open>QJsonDocument::fromJson\<close> makes of the datagram's bytes.
\<close>

fun datagramLoop ::
  "(nat \<Rightarrow> bool) \<Rightarrow> (QJsonValue \<Rightarrow> int) \<Rightarrow> msecs \<Rightarrow> Datagram list \<Rightarrow> Receiver
     \<Rightarrow> Receiver outcome" where
  "datagramLoop transport toLongLong now [] st = Returned st"
| "datagramLoop transport toLongLong now (datagram # rest) st =
     (if isValid datagram
      then (if parsed datagram = ParseError
            then datagramLoop transport toLongLong now rest st
            else (let obj = object (parsed datagram)
                  in if contains_key obj ''type'' \<and> toString (value_at obj ''type'') = ''ACK''
                     then datagramLoop transport toLongLong now rest st
                     else (let p = fromJson toLongLong obj
                           in case (if needsAck p
                                    then sendAck transport now (sequenceNumber p)
                                           (senderAddress datagram) (senderPort datagram) st
                                    else Returned st) of
                                Deadlocked s \<Rightarrow> Deadlocked s
                              | Returned st1 \<Rightarrow>
                                  datagramLoop transport toLongLong now rest
                                    (processReceivedPacket p st1))))
      else datagramLoop transport toLongLong now rest st)"

definition processPendingDatagrams ::
  "(nat \<Rightarrow> bool) \<Rightarrow> (QJsonValue \<Rightarrow> int) \<Rightarrow> msecs \<Rightarrow> Datagram list \<Rightarrow> Receiver
     \<Rightarrow> Receiver outcome" where
  "processPendingDatagrams transport toLongLong now pending st =
     (case lockSocket st of
        Deadlocked s \<Rightarrow> Deadlocked s
      | Returned st1 \<Rightarrow>
          (case datagramLoop transport toLongLong now pending st1 of
             Deadlocked s \<Rightarrow> Deadlocked s
           | Returned st2 \<Rightarrow> Returned (unlockSocket st2)))"

section \<open>Sender (ReliableUdpSender)\<close>

datatype sender_signal =
  AckReceived quint32 | PacketTimeout quint32 | SenderStatisticsUpdated

record PendingPacket =
  packet :: TelemetryPacket
  sentTime :: msecs
  retransmissionCount :: int

record SentDatagram =
  body :: TelemetryPacket
  accepted :: bool

record Sender =
  pendingAcks :: "(quint32 \<times> PendingPacket) list"
  nextSequenceNumber :: quint32
  ackTimeoutMs :: "32 word"
  maxRetransmissions :: int
  reliabilityEnabled :: bool
  packetsSent :: counter
  acksReceived :: counter
  retransmissions :: counter
  senderSignals :: "sender_signal list"
  writes :: "SentDatagram list"

definition Sender0 :: Sender where
  "Sender0 =
     \<lparr>pendingAcks = [], nextSequenceNumber = 1, ackTimeoutMs = 3000,
      maxRetransmissions = 3, reliabilityEnabled = True, packetsSent = 0,
      acksReceived = 0, retransmissions = 0, senderSignals = [], writes = []\<rparr>"

definition emitS :: "sender_signal \<Rightarrow> Sender \<Rightarrow> Sender" where
  "emitS s st = st\<lparr>senderSignals := senderSignals st @ [s]\<rparr>"

text \<open>\<open>m_socket->writeDatagram(data, m_targetAddress, m_targetPort) != -1\<close>.\<close>

definition writeDatagram :: "(nat \<Rightarrow> bool) \<Rightarrow> TelemetryPacket \<Rightarrow> Sender \<Rightarrow> bool \<times> Sender" where
  "writeDatagram transport p st =
     (let sent = transport (length (writes st))
      in (sent, st\<lparr>writes := writes st @ [\<lparr>body = p, accepted = sent\<rparr>]\<rparr>))"

definition sendTelemetryData ::
  "(nat \<Rightarrow> bool) \<Rightarrow> msecs \<Rightarrow> TelemetryPacket \<Rightarrow> Sender \<Rightarrow> Sender" where
  "sendTelemetryData transport now p st =
     (let sendPacket = p\<lparr>sequenceNumber := nextSequenceNumber st, timestamp := Some now,
                          needsAck := reliabilityEnabled st\<rparr>;
          st1 = st\<lparr>nextSequenceNumber := nextSequenceNumber st + 1\<rparr>;
          (sent, st2) = writeDatagram transport sendPacket st1
      in if sent
         then (let st3 = st2\<lparr>packetsSent := packetsSent st2 + 1\<rparr>;
                   st4 = (if reliabilityEnabled st3
                          then st3\<lparr>pendingAcks :=
                                 AList.update (sequenceNumber sendPacket)
                                   \<lparr>packet = sendPacket, sentTime = now,
                                    retransmissionCount = 0\<rparr>
                                   (pendingAcks st3)\<rparr>
                          else st3)
               in emitS SenderStatisticsUpdated st4)
         else st2)"

text \<open>
  The retransmission counter and its bound are C \<open>int\<close>s; the counter is incremented
  only while it is below the bound, so it never overflows and is modelled as \<open>int\<close>.
\<close>

definition retransmitPacket :: "(nat \<Rightarrow> bool) \<Rightarrow> msecs \<Rightarrow> quint32 \<Rightarrow> Sender \<Rightarrow> Sender" where
  "retransmitPacket transport now seqNo st =
     (case map_of (pendingAcks st) seqNo of
        None \<Rightarrow> st
      | Some pending \<Rightarrow>
          (let pending' = pending\<lparr>retransmissionCount := retransmissionCount pending + 1,
                                  sentTime := now\<rparr>;
               st1 = st\<lparr>pendingAcks := AList.update seqNo pending' (pendingAcks st)\<rparr>;
               (sent, st2) = writeDatagram transport (packet pending') st1;
               st3 = (if sent then st2\<lparr>retransmissions := retransmissions st2 + 1\<rparr> else st2)
           in emitS SenderStatisticsUpdated st3))"

text \<open>
  The body of the second loop of \<open>checkForTimeouts\<close>. \<open>seq\<close> was collected from the
  hash by the first loop and the steps for other keys leave its entry alone, so
  \<open>m_pendingAcks[seq]\<close> finds it; the branch for an absent key is never taken.
\<close>

definition timeoutStep :: "(nat \<Rightarrow> bool) \<Rightarrow> msecs \<Rightarrow> quint32 \<Rightarrow> Sender \<Rightarrow> Sender" where
  "timeoutStep transport now seq st =
     (case map_of (pendingAcks st) seq of
        None \<Rightarrow> st
      | Some pending \<Rightarrow>
          (if retransmissionCount pending < maxRetransmissions st
           then retransmitPacket transport now seq st
           else emitS (PacketTimeout seq)
                  (st\<lparr>pendingAcks := AList.delete seq (pendingAcks st)\<rparr>)))"

text \<open>
  The first loop of \<open>checkForTimeouts\<close>. The cutoff is
  \<^verbatim>\<open>QDateTime::currentDateTime().addMSecs(-m_ackTimeoutMs)\<close>: \<open>m_ackTimeoutMs\<close> is a C
  \<open>int\<close>, negated in its 32 bits (at \<open>INT_MIN\<close> the C++ has no defined result and the
  model wraps, giving \<open>INT_MIN\<close> again) and then widened to the \<open>qint64\<close> that is added
  to the clock.
\<close>

definition cutoffOffset :: "Sender \<Rightarrow> int" where
  "cutoffOffset st = sint (- ackTimeoutMs st)"

definition timedOut :: "msecs \<Rightarrow> Sender \<Rightarrow> quint32 list" where
  "timedOut now st =
     (let cutoffTime = now + cutoffOffset st
      in map fst (filter (\<lambda>(k, v). sentTime v < cutoffTime) (pendingAcks st)))"

definition checkForTimeouts :: "(nat \<Rightarrow> bool) \<Rightarrow> msecs \<Rightarrow> Sender \<Rightarrow> Sender" where
  "checkForTimeouts transport now st =
     fold (timeoutStep transport now) (timedOut now st) st"

text \<open>Successive runs of the periodic timeout check, at the given times.\<close>

fun timeoutChecks :: "(nat \<Rightarrow> bool) \<Rightarrow> msecs list \<Rightarrow> Sender \<Rightarrow> Sender" where
  "timeoutChecks transport [] st = st"
| "timeoutChecks transport (now # later) st =
     timeoutChecks transport later (checkForTimeouts transport now st)"

section \<open>Sample inputs and derived notions\<close>

definition samplePacket :: "quint32 \<Rightarrow> real \<Rightarrow> real \<Rightarrow> real \<Rightarrow> TelemetryPacket" where
  "samplePacket n lat lon v =
     \<lparr>sequenceNumber = n, timestamp = Some 0, latitude = lat, longitude = lon, speed = v,
      status = ''OK'', needsAck = False\<rparr>"

text \<open>Sequence processing of the packets of a list, in order of arrival.\<close>

definition receiveAll :: "TelemetryPacket list \<Rightarrow> Receiver \<Rightarrow> Receiver" where
  "receiveAll ps st = fold processReceivedPacket ps st"

text \<open>The packets whose datagram the sender's socket accepted, in order.\<close>

definition deliveredPackets :: "Sender \<Rightarrow> TelemetryPacket list" where
  "deliveredPackets st = map body (filter accepted (writes st))"

text \<open>The receiver state of the gap-fill example: the buffer holds 5 and 9.\<close>

definition gapState :: Receiver where
  "gapState = Receiver0
     \<lparr>receivedPackets := [(5, samplePacket 5 0 0 0), (9, samplePacket 9 4 8 40)],
      expectedSequenceNumber := 6, lastValidSequenceNumber := 9,
      lastValidPacket := samplePacket 9 4 8 40\<rparr>"

text \<open>The same example ten sequence numbers later.\<close>

definition gapState10 :: Receiver where
  "gapState10 = Receiver0
     \<lparr>receivedPackets := [(15, samplePacket 15 0 0 0), (19, samplePacket 19 4 8 40)],
      expectedSequenceNumber := 16, lastValidSequenceNumber := 19,
      lastValidPacket := samplePacket 19 4 8 40\<rparr>"

definition interpolatedPacket :: "msecs \<Rightarrow> quint32 \<Rightarrow> real \<Rightarrow> real \<Rightarrow> real \<Rightarrow> TelemetryPacket" where
  "interpolatedPacket now n lat lon v =
     \<lparr>sequenceNumber = n, timestamp = Some now, latitude = lat, longitude = lon, speed = v,
      status = ''INTERPOLATED'', needsAck = False\<rparr>"

text \<open>A well-formed telemetry document that asks for an acknowledgment.\<close>

definition ackRequest :: Datagram where
  "ackRequest =
     \<lparr>isValid = True,
      parsed = DocObject
        [(''seq'', JDouble 1), (''timestamp'', JDouble 1000), (''latitude'', JDouble 1),
         (''longitude'', JDouble 2), (''speed'', JDouble 3), (''status'', JString ''OK''),
         (''needsAck'', JBool True)],
      senderAddress = ''127.0.0.1'', senderPort = 40000\<rparr>"

text \<open>
  The datagrams the loop of \<open>processPendingDatagrams\<close> passes over with \<open>continue\<close>:
  invalid ones, those that do not parse, and ACK documents.
\<close>

definition dropped :: "Datagram \<Rightarrow> bool" where
  "dropped d \<longleftrightarrow>
     \<not> isValid d \<or> parsed d = ParseError \<or>
     (contains_key (object (parsed d)) ''type'' \<and>
      toString (value_at (object (parsed d)) ''type'') = ''ACK'')"

text \<open>A receiver whose buffer holds three packets with room for two.\<close>

definition fullBuffer :: Receiver where
  "fullBuffer = Receiver0
     \<lparr>receivedPackets := [(7, samplePacket 7 1 1 1), (2, samplePacket 2 2 2 2),
                           (5, samplePacket 5 3 3 3)],
      maxBufferSize := 2\<rparr>"

text \<open>
  The \<open>m\<close> numerically highest keys of a buffer, and the entries under them, in the
  buffer's order.
\<close>

definition highestKeys :: "nat \<Rightarrow> (quint32 \<times> TelemetryPacket) list \<Rightarrow> quint32 list" where
  "highestKeys m buf = drop (length buf - m) (sort (map fst buf))"

definition retained :: "nat \<Rightarrow> (quint32 \<times> TelemetryPacket) list \<Rightarrow> (quint32 \<times> TelemetryPacket) list" where
  "retained m buf = filter (\<lambda>(k, v). k \<in> set (highestKeys m buf)) buf"

text \<open>
  The invariant of \<open>m_pendingAcks\<close>: keys are unique, and an entry is stored under the
  sequence number of its packet (\<open>sendTelemetryData\<close> is the only function that inserts).
\<close>

definition pendingWf :: "Sender \<Rightarrow> bool" where
  "pendingWf st \<longleftrightarrow>
     distinct (map fst (pendingAcks st)) \<and>
     (\<forall>(k, v) \<in> set (pendingAcks st). sequenceNumber (packet v) = k)"

text \<open>
  The packets with sequence number \<open>seq\<close> handed to \<open>writeDatagram\<close> so far, and the
  \<open>packetTimeout(seq)\<close> signals emitted so far.
\<close>

definition datagramsFor :: "quint32 \<Rightarrow> Sender \<Rightarrow> TelemetryPacket list" where
  "datagramsFor seq st = filter (\<lambda>p. sequenceNumber p = seq) (map body (writes st))"

definition timeoutsFor :: "quint32 \<Rightarrow> Sender \<Rightarrow> sender_signal list" where
  "timeoutsFor seq st = filter (\<lambda>s. s = PacketTimeout seq) (senderSignals st)"

text \<open>
  The checks of a run that find an entry expired, while it is being retransmitted:
  a check at time \<open>t\<close> does when the entry's \<open>sentTime\<close> is below \<open>t\<close> plus the cutoff
  offset \<open>c\<close>, and the retransmission it makes sets \<open>sentTime\<close> to \<open>t\<close>.
\<close>

fun expiring :: "int \<Rightarrow> msecs \<Rightarrow> msecs list \<Rightarrow> msecs list" where
  "expiring c t0 [] = []"
| "expiring c t0 (t # ts) = (if t0 < t + c then t # expiring c t ts else expiring c t0 ts)"

text \<open>Seventeen ticks of the sender's timer, which fires every 1000 ms.\<close>

definition timerTicks :: "msecs list" where
  "timerTicks = [1000, 2000, 3000, 4000, 5000, 6000, 7000, 8000, 9000, 10000, 11000, 12000,
                 13000, 14000, 15000, 16000, 17000]"

text \<open>
  A sender after one successful send, and a fire-and-forget sender whose second of
  three sends fails.
\<close>

definition oneSend :: Sender where
  "oneSend = sendTelemetryData (\<lambda>n. True) 0 (samplePacket 0 1 2 3) Sender0"

definition threeSends :: Sender where
  "threeSends =
     sendTelemetryData (\<lambda>n. n \<noteq> 1) 30 (samplePacket 0 3 3 3)
       (sendTelemetryData (\<lambda>n. n \<noteq> 1) 20 (samplePacket 0 2 2 2)
         (sendTelemetryData (\<lambda>n. n \<noteq> 1) 10 (samplePacket 0 1 1 1)
           (Sender0\<lparr>reliabilityEnabled := False\<rparr>)))"

section \<open>Sequence processing\<close>

lemma processReceivedPacket_buffer:
  "receivedPackets (processReceivedPacket p st) = receivedPackets st"
  by (simp add: processReceivedPacket_def Let_def updateStatistics_def emit_def)

lemma processReceivedPacket_lastValid:
  "lastValidSequenceNumber st \<le> lastValidSequenceNumber (processReceivedPacket p st)"
  by (simp add: processReceivedPacket_def Let_def updateStatistics_def emit_def)

lemma processReceivedPacket_expected:
  assumes "sequenceNumber p \<noteq> - 1"
  shows "expectedSequenceNumber st \<le> expectedSequenceNumber (processReceivedPacket p st)"
proof (cases "sequenceNumber p \<ge> expectedSequenceNumber st")
  case True
  have "sequenceNumber p \<le> sequenceNumber p + 1"
    using assms inc_less_eq_self_iff_eq by fastforce
  with True show ?thesis
    by (simp add: processReceivedPacket_def Let_def updateStatistics_def emit_def)
next
  case False
  then show ?thesis
    by (simp add: processReceivedPacket_def Let_def updateStatistics_def emit_def)
qed

lemma processReceivedPacket_count:
  "packetsReceived (processReceivedPacket p st) = packetsReceived st + 1"
  by (simp add: processReceivedPacket_def Let_def updateStatistics_def emit_def)

text \<open>
  C1: a packet accepted by \<open>processReceivedPacket\<close> is stored in the receive buffer under
  its sequence number, so that a later gap check or interpolation lookup finds it.
  The function never writes \<open>m_receivedPackets\<close> (lemma \<open>processReceivedPacket_buffer\<close>:
  the buffer after the call is the buffer before it). Evaluated on the freshly
  constructed receiver and a packet with sequence number 5: after the call the buffer
  has no entry for 5.
\<close>

theorem received_packet_not_buffered:
  "buffered (processReceivedPacket (samplePacket 5 1 2 3) Receiver0) 5 = None"
  by (simp add: buffered_def processReceivedPacket_buffer Receiver0_def)

text \<open>The JSON number -1 decodes to the sequence number \<open>2^32 - 1\<close>.\<close>

lemma minus_one_decodes_to_max:
  "sequenceNumber (fromJson toLongLong [(''seq'', JDouble (- 1))]) = - 1"
proof -
  have "\<lfloor>- 1 :: real\<rfloor> = - 1" by (simp add: floor_eq_iff)
  then show ?thesis by (simp add: fromJson_def value_at_def toInt_def)
qed

text \<open>
  C6, as stated, fails at the top of the sequence-number range: a packet with sequence
  number \<open>2^32 - 1\<close> (the JSON number -1 decodes to it) sets \<open>expectedSequenceNumber\<close> to
  \<open>2^32 - 1 + 1 = 0\<close>, below its initial value 1.
\<close>

theorem expected_regresses_at_max:
  "expectedSequenceNumber (processReceivedPacket (samplePacket (- 1) 1 2 3) Receiver0)
     < expectedSequenceNumber Receiver0"
  by (simp add: processReceivedPacket_def Let_def updateStatistics_def emit_def
      Receiver0_def samplePacket_def)

text \<open>
  C6, amended: across every sequence of received packets \<open>lastValidSequenceNumber\<close> never
  decreases and \<open>packetsReceived\<close> grows by exactly one per packet (in the counter's 32
  bits), duplicates included; \<open>expectedSequenceNumber\<close> never decreases provided no
  packet carries the sequence number \<open>2^32 - 1\<close>.
\<close>

theorem watermarks_never_regress:
  "lastValidSequenceNumber st \<le> lastValidSequenceNumber (receiveAll ps st) \<and>
   packetsReceived (receiveAll ps st) = packetsReceived st + word_of_nat (length ps) \<and>
   ((\<forall>p \<in> set ps. sequenceNumber p \<noteq> - 1) \<longrightarrow>
      expectedSequenceNumber st \<le> expectedSequenceNumber (receiveAll ps st))"
proof (induction ps arbitrary: st)
  case Nil
  show ?case by (simp add: receiveAll_def)
next
  case (Cons p ps)
  let ?st1 = "processReceivedPacket p st"
  have step: "receiveAll (p # ps) st = receiveAll ps ?st1"
    by (simp add: receiveAll_def)
  have lv: "lastValidSequenceNumber st \<le> lastValidSequenceNumber (receiveAll ps ?st1)"
    using Cons.IH [of ?st1] processReceivedPacket_lastValid [of st p] by (rule_tac order_trans) auto
  have cnt: "packetsReceived (receiveAll ps ?st1) = packetsReceived st + word_of_nat (length (p # ps))"
    using Cons.IH [of ?st1] by (simp add: processReceivedPacket_count)
  have ex: "expectedSequenceNumber st \<le> expectedSequenceNumber (receiveAll ps ?st1)"
    if "\<forall>q \<in> set (p # ps). sequenceNumber q \<noteq> - 1"
  proof -
    from that have "expectedSequenceNumber st \<le> expectedSequenceNumber ?st1"
      by (simp add: processReceivedPacket_expected)
    moreover from that have "expectedSequenceNumber ?st1 \<le> expectedSequenceNumber (receiveAll ps ?st1)"
      using Cons.IH [of ?st1] by simp
    ultimately show ?thesis by (rule order_trans)
  qed
  from lv cnt ex show ?case unfolding step by blast
qed

theorem watermarks_never_regress_witness:
  "expectedSequenceNumber Receiver0
     \<le> expectedSequenceNumber
         (receiveAll [samplePacket 3 1 2 3, samplePacket 3 1 2 3, samplePacket 2 0 0 0] Receiver0)"
proof -
  have "\<forall>p \<in> set [samplePacket 3 1 2 3, samplePacket 3 1 2 3, samplePacket 2 0 0 0].
          sequenceNumber p \<noteq> - 1"
    by (simp add: samplePacket_def)
  with watermarks_never_regress
         [of Receiver0 "[samplePacket 3 1 2 3, samplePacket 3 1 2 3, samplePacket 2 0 0 0]"]
  show ?thesis by blast
qed

section \<open>Loss rate\<close>

lemma sint_counter_sum:
  fixes r l :: counter
  assumes "0 \<le> sint r" "0 \<le> sint l" "sint r + sint l < 2 ^ 31"
  shows "sint (r + l) = sint r + sint l"
  using assms signed_take_bit_int_eq_self_iff by (auto simp: sint_word_ariths)

text \<open>
  C8: the loss rate is \<open>packetsLost / (packetsReceived + packetsLost) \<times> 100\<close>, and 0 when
  \<open>packetsReceived + packetsLost = 0\<close>; 97 received and 3 lost give 3. The counters count
  up from 0, so they are taken non-negative with a sum that fits the \<open>int\<close> the code adds
  them in; the arithmetic of \<open>double\<close> is read as that of the reals.
\<close>

theorem loss_rate_formula:
  assumes "0 \<le> sint (packetsReceived st)" and "0 \<le> sint (packetsLost st)"
    and "sint (packetsReceived st) + sint (packetsLost st) < 2 ^ 31"
  shows "getPacketLossRate st =
           (if sint (packetsReceived st) + sint (packetsLost st) = 0 then 0
            else real_of_int (sint (packetsLost st)) /
                 real_of_int (sint (packetsReceived st) + sint (packetsLost st)) * 100)"
proof -
  have "sint (packetsReceived st + packetsLost st) =
          sint (packetsReceived st) + sint (packetsLost st)"
    using assms by (rule sint_counter_sum)
  with assms(1,2) show ?thesis
    by (auto simp: getPacketLossRate_def Let_def)
qed

theorem loss_rate_formula_witness:
  "getPacketLossRate (Receiver0\<lparr>packetsReceived := 97, packetsLost := 3\<rparr>) = 3"
  using loss_rate_formula [of "Receiver0\<lparr>packetsReceived := 97, packetsLost := 3\<rparr>"]
  by simp

section \<open>Gap check and interpolation\<close>

lemmas gap_defs = gapState_def Receiver0_def samplePacket_def interpolatedPacket_def
  interpolatePacket_def findBefore.simps findAfter.simps buffered_def TelemetryPacket0_def

text \<open>
  C2: with the buffer holding exactly 5 (packet A) and 9 (packet B),
  \<open>lastValidSequenceNumber = 9\<close>, \<open>expectedSequenceNumber = 6\<close> and interpolation enabled,
  one gap check emits 6, 7 and 8 once each, tagged \<open>INTERPOLATED\<close>, interpolated between
  A and B at 1/4, 2/4 and 3/4, and leaves \<open>expectedSequenceNumber = 9\<close>.
  Evaluated with A at latitude 0, longitude 0, speed 0 and B at latitude 4, longitude 8,
  speed 40: the three packets are emitted once each, tagged, and the watermark becomes
  9, but each carries B's values (4, 8, 40) where the claim has (1, 2, 10), (2, 4, 20)
  and (3, 6, 30): the backward search's bound \<open>sequenceNumber - 10\<close> wraps for sequence
  numbers below 10, so A is never found and the successor alone is copied.
\<close>

theorem gap_fill_copies_successor:
  "signals (checkForMissingPackets 7000 gapState) =
     [TelemetryDataReceived (interpolatedPacket 7000 6 4 8 40),
      TelemetryDataReceived (interpolatedPacket 7000 7 4 8 40),
      TelemetryDataReceived (interpolatedPacket 7000 8 4 8 40),
      StatisticsUpdated] \<and>
   expectedSequenceNumber (checkForMissingPackets 7000 gapState) = 9"
  by (simp add: gap_defs checkForMissingPackets_def missingLoop.simps missingStep_def
      updateStatistics_def emit_def Let_def)

text \<open>
  From sequence number 10 on the same gap is filled by linear interpolation, and
  whenever both searches find nothing the position and speed are \<open>lastValidPacket\<close>'s.
\<close>

lemma interpolation_from_10_on:
  "interpolatePacket 7000 16 gapState10 = interpolatedPacket 7000 16 1 2 10 \<and>
   interpolatePacket 7000 17 gapState10 = interpolatedPacket 7000 17 2 4 20 \<and>
   interpolatePacket 7000 18 gapState10 = interpolatedPacket 7000 18 3 6 30"
  by (simp add: gapState10_def Receiver0_def samplePacket_def interpolatedPacket_def
      interpolatePacket_def findBefore.simps findAfter.simps buffered_def TelemetryPacket0_def)

lemma interpolation_fallback:
  "findBefore st s (s - 1) = None \<Longrightarrow> findAfter st s (s + 1) = None \<Longrightarrow>
   latitude (interpolatePacket now s st) = latitude (lastValidPacket st) \<and>
   longitude (interpolatePacket now s st) = longitude (lastValidPacket st) \<and>
   speed (interpolatePacket now s st) = speed (lastValidPacket st)"
  by (simp add: interpolatePacket_def)

text \<open>
  For every sequence number from 1 to 9 the backward search examines nothing, whatever
  the buffer holds: \<open>sequenceNumber - 10\<close> wraps to at least \<open>2^32 - 9\<close>.
\<close>

lemma findBefore_below_10:
  assumes "0 < s" and "s < 10"
  shows "findBefore st s (s - 1) = None"
proof -
  have "\<not> s - 1 > s - 10"
    using assms by unat_arith simp
  then show ?thesis by (subst findBefore.simps) simp
qed

text \<open>
  C5: for every missing sequence number \<open>s\<close>, also \<open>s \<le> 10\<close>, the policy examines the
  buffered predecessors down to \<open>s - 9\<close> and the successors up to \<open>s + 9\<close>, interpolates
  linearly when both exist, copies the one that exists, and falls back to
  \<open>lastValidPacket\<close> when neither does.
  Evaluated at \<open>s = 6\<close> with 5 and 9 buffered: the predecessor 5 is in the buffer and
  within 9 of \<open>s\<close>, yet the backward search returns nothing, and the result is the copy
  of the successor (latitude 4, longitude 8, speed 40) where linear interpolation at
  fraction 1/4 gives (1, 2, 10).
\<close>

theorem predecessor_missed_below_10:
  "buffered gapState 5 = Some (samplePacket 5 0 0 0) \<and>
   buffered gapState 9 = Some (samplePacket 9 4 8 40) \<and>
   findBefore gapState 6 (6 - 1) = None \<and>
   interpolatePacket 7000 6 gapState = interpolatedPacket 7000 6 4 8 40"
  by (simp add: gap_defs)

section \<open>The datagram path\<close>

lemma datagramLoop_skip:
  "dropped d \<Longrightarrow>
   datagramLoop transport toLongLong now (d # rest) st =
   datagramLoop transport toLongLong now rest st"
  by (auto simp: dropped_def Let_def)

lemma unlock_free: "\<not> socketLockHeld st \<Longrightarrow> unlockSocket (st\<lparr>socketLockHeld := True\<rparr>) = st"
  by (simp add: unlockSocket_def)

text \<open>
  Datagrams that are invalid, fail to parse or are ACK documents leave the receiver as
  it was: nothing is emitted, counted or written.
\<close>

lemma undecodable_and_ack_ignored:
  assumes "list_all dropped ds" and "\<not> socketLockHeld st"
  shows "processPendingDatagrams transport toLongLong now ds st = Returned st"
proof -
  have "datagramLoop transport toLongLong now ds s = Returned s" for s
    using assms(1) by (induction ds) (simp_all add: datagramLoop_skip del: datagramLoop.simps(2))
  with assms(2) show ?thesis
    by (simp add: processPendingDatagrams_def lockSocket_def unlock_free)
qed

lemma processReceivedPacket_lock:
  "socketLockHeld (processReceivedPacket p st) = socketLockHeld st"
  by (simp add: processReceivedPacket_def Let_def updateStatistics_def emit_def)

lemma unlock_processed:
  "\<not> socketLockHeld st \<Longrightarrow>
   unlockSocket (processReceivedPacket p (st\<lparr>socketLockHeld := True\<rparr>)) = processReceivedPacket p st"
  by (simp add: processReceivedPacket_def Let_def updateStatistics_def emit_def unlockSocket_def)

text \<open>A telemetry document that does not ask for an acknowledgment is processed.\<close>

lemma telemetry_without_ack_processed:
  assumes "\<not> dropped d"
    and "\<not> needsAck (fromJson toLongLong (object (parsed d)))"
    and "\<not> socketLockHeld st"
  shows "processPendingDatagrams transport toLongLong now [d] st =
         Returned (processReceivedPacket (fromJson toLongLong (object (parsed d))) st)"
proof -
  have "datagramLoop transport toLongLong now [d] s =
        Returned (processReceivedPacket (fromJson toLongLong (object (parsed d))) s)" for s
    using assms(1,2) by (auto simp: dropped_def Let_def)
  with assms(3) show ?thesis
    by (simp add: processPendingDatagrams_def lockSocket_def unlock_processed)
qed

text \<open>Inside the loop the socket mutex is held, so \<open>sendAck\<close> never gets it.\<close>

lemma telemetry_with_ack_deadlocks:
  assumes "\<not> dropped d"
    and "needsAck (fromJson toLongLong (object (parsed d)))"
    and "\<not> socketLockHeld st"
  shows "processPendingDatagrams transport toLongLong now (d # rest) st =
         Deadlocked (st\<lparr>socketLockHeld := True\<rparr>)"
proof -
  have "datagramLoop transport toLongLong now (d # rest) s = Deadlocked s"
    if "socketLockHeld s" for s
    using assms(1,2) that by (auto simp: dropped_def Let_def sendAck_def lockSocket_def)
  with assms(3) show ?thesis
    by (simp add: processPendingDatagrams_def lockSocket_def)
qed

text \<open>
  C9: a datagram that fails to decode, or is an ACK document, is dropped without effect
  and the loop goes on (lemma \<open>undecodable_and_ack_ignored\<close>); a telemetry document
  reaches sequence processing, and one with \<open>needsAck = true\<close> causes exactly one
  \<open>AckPacket\<close> with its sequence number to be sent back to the datagram's sender.
  Evaluated on the freshly constructed receiver and one well-formed telemetry datagram
  with \<open>needsAck = true\<close>: \<open>processPendingDatagrams\<close> holds \<open>m_socketLock\<close> when it calls
  \<open>sendAck\<close>, which locks the same non-recursive mutex, so the call never returns; no
  ACK is written, the packet is not counted and no signal is emitted.
\<close>

theorem ack_request_deadlocks:
  "processPendingDatagrams (\<lambda>n. True) (\<lambda>v. 1000) 2000 [ackRequest] Receiver0 =
     Deadlocked (Receiver0\<lparr>socketLockHeld := True\<rparr>)"
  by (simp add: processPendingDatagrams_def lockSocket_def Receiver0_def ackRequest_def
      object_def contains_key_def value_at_def toString_def fromJson_def toBool_def
      sendAck_def Let_def)

section \<open>Buffer cleanup\<close>

lemma delete_as_filter: "AList.delete k buf = filter (\<lambda>(k', v). k' \<noteq> k) buf"
  by (induction buf) auto

lemma removeLoop_result:
  "0 \<le> i \<Longrightarrow> toRemove \<le> int (length keys) \<Longrightarrow>
   removeLoop keys toRemove i buf =
     Some (filter (\<lambda>(k, v). k \<notin> set (drop (nat i) (take (nat toRemove) keys))) buf)"
proof (induction keys toRemove i buf rule: removeLoop.induct)
  case (1 keys toRemove i buf)
  show ?case
  proof (cases "i < toRemove")
    case True
    with "1.prems" have inb: "nat i < length (take (nat toRemove) keys)" by simp
    have nth: "take (nat toRemove) keys ! nat i = keys ! nat i"
      using True "1.prems" by simp
    have dr: "drop (nat i) (take (nat toRemove) keys) =
              keys ! nat i # drop (nat (i + 1)) (take (nat toRemove) keys)"
      using Cons_nth_drop_Suc [OF inb] nth "1.prems"(1) by (simp add: nat_add_distrib)
    have "removeLoop keys toRemove i buf =
          removeLoop keys toRemove (i + 1) (AList.delete (keys ! nat i) buf)"
      using True "1.prems" by (subst removeLoop.simps) simp
    also have "\<dots> = Some (filter (\<lambda>(k, v). k \<notin> set (drop (nat (i + 1)) (take (nat toRemove) keys)))
                        (AList.delete (keys ! nat i) buf))"
      using True "1.prems" by (intro "1.IH") auto
    also have "\<dots> = Some (filter (\<lambda>(k, v). k \<notin> set (drop (nat i) (take (nat toRemove) keys))) buf)"
      unfolding dr delete_as_filter by (auto intro: filter_cong)
    finally show ?thesis .
  next
    case False
    then have "drop (nat i) (take (nat toRemove) keys) = []"
      using "1.prems" by simp
    with False show ?thesis
      by (subst removeLoop.simps) simp
  qed
qed

lemma cleanup_over:
  assumes d: "distinct (map fst (receivedPackets st))"
    and m: "0 \<le> maxBufferSize st"
    and over: "int (length (receivedPackets st)) > maxBufferSize st"
  shows "cleanupOldPackets st =
           Some (st\<lparr>receivedPackets :=
                  retained (nat (maxBufferSize st)) (receivedPackets st)\<rparr>)"
proof -
  let ?buf = "receivedPackets st"
  let ?keys = "sort (map fst ?buf)"
  let ?r = "length ?buf - nat (maxBufferSize st)"
  have r: "nat (int (length ?buf) - maxBufferSize st) = ?r" using m by linarith
  have dk: "distinct ?keys" using d by simp
  have disj: "set (take ?r ?keys) \<inter> set (drop ?r ?keys) = {}"
    using dk by (rule set_take_disj_set_drop_if_distinct) simp
  have un: "set (take ?r ?keys) \<union> set (drop ?r ?keys) = set (map fst ?buf)"
    by (metis append_take_drop_id set_append set_sort)
  have "removeLoop ?keys (int (length ?buf) - maxBufferSize st) 0 ?buf =
          Some (filter (\<lambda>(k, v). k \<notin> set (take ?r ?keys)) ?buf)"
    using m by (subst removeLoop_result) (simp_all add: r)
  also have "filter (\<lambda>(k, v). k \<notin> set (take ?r ?keys)) ?buf =
             filter (\<lambda>(k, v). k \<in> set (drop ?r ?keys)) ?buf"
  proof (rule filter_cong [OF refl])
    fix x assume "x \<in> set ?buf"
    then have "fst x \<in> set (map fst ?buf)" by simp
    with disj un show "(case x of (k, v) \<Rightarrow> k \<notin> set (take ?r ?keys)) =
                       (case x of (k, v) \<Rightarrow> k \<in> set (drop ?r ?keys))"
      by (cases x) auto
  qed
  finally show ?thesis
    using over by (simp add: cleanupOldPackets_def Let_def highestKeys_def retained_def)
qed

lemma highestKeys_props:
  assumes d: "distinct (map fst buf)" and le: "m \<le> length buf"
  shows "length (filter (\<lambda>(k, v). k \<in> set (highestKeys m buf)) buf) = m"
    and "\<forall>k \<in> set (map fst buf) - set (highestKeys m buf). \<forall>k' \<in> set (highestKeys m buf). k < k'"
proof -
  let ?keys = "sort (map fst buf)"
  let ?r = "length buf - m"
  have dk: "distinct ?keys" using d by simp
  have sub: "set (highestKeys m buf) \<subseteq> set (map fst buf)"
    unfolding highestKeys_def by (metis set_drop_subset set_sort)
  have "length (filter (\<lambda>(k, v). k \<in> set (highestKeys m buf)) buf) =
        length (filter (\<lambda>k. k \<in> set (highestKeys m buf)) (map fst buf))"
    by (simp add: filter_map comp_def case_prod_unfold)
  also have "\<dots> = card ({k. k \<in> set (highestKeys m buf)} \<inter> set (map fst buf))"
    using d by (rule distinct_length_filter)
  also have "{k. k \<in> set (highestKeys m buf)} \<inter> set (map fst buf) = set (highestKeys m buf)"
    using sub by auto
  also have "card (set (highestKeys m buf)) = length (highestKeys m buf)"
    unfolding highestKeys_def using dk by (intro distinct_card distinct_drop)
  also have "\<dots> = m" using le by (simp add: highestKeys_def)
  finally show "length (filter (\<lambda>(k, v). k \<in> set (highestKeys m buf)) buf) = m" .
  have srt: "sorted (take ?r ?keys @ drop ?r ?keys)" by simp
  have disj: "set (take ?r ?keys) \<inter> set (drop ?r ?keys) = {}"
    using dk by (rule set_take_disj_set_drop_if_distinct) simp
  have un: "set (take ?r ?keys) \<union> set (drop ?r ?keys) = set (map fst buf)"
    by (metis append_take_drop_id set_append set_sort)
  show "\<forall>k \<in> set (map fst buf) - set (highestKeys m buf). \<forall>k' \<in> set (highestKeys m buf). k < k'"
  proof (intro ballI)
    fix k k' assume k: "k \<in> set (map fst buf) - set (highestKeys m buf)"
      and k': "k' \<in> set (highestKeys m buf)"
    from k un have kt: "k \<in> set (take ?r ?keys)" by (auto simp: highestKeys_def)
    from k' have kd: "k' \<in> set (drop ?r ?keys)" by (simp add: highestKeys_def)
    from srt kt kd have "k \<le> k'" unfolding sorted_append by blast
    moreover from disj kt kd have "k \<noteq> k'" by auto
    ultimately show "k < k'" by simp
  qed
qed

lemma removeLoop_out_of_range:
  "int (length keys) < toRemove \<Longrightarrow> 0 \<le> i \<Longrightarrow> i \<le> int (length keys) \<Longrightarrow>
   removeLoop keys toRemove i buf = None"
proof (induction keys toRemove i buf rule: removeLoop.induct)
  case (1 keys toRemove i buf)
  show ?case
  proof (cases "i < int (length keys)")
    case True
    with "1.prems" have "removeLoop keys toRemove (i + 1) (AList.delete (keys ! nat i) buf) = None"
      by (intro "1.IH") auto
    with True "1.prems" show ?thesis by (subst removeLoop.simps) simp
  next
    case False
    with "1.prems" show ?thesis by (subst removeLoop.simps) simp
  qed
qed

text \<open>With a negative bound the loop indexes past the end of the key list.\<close>

lemma cleanup_negative_bound:
  "maxBufferSize st < 0 \<Longrightarrow> cleanupOldPackets st = None"
  by (simp add: cleanupOldPackets_def Let_def removeLoop_out_of_range)

lemma retained_keys:
  assumes "distinct (map fst buf)"
  shows "fst ` set (retained m buf) = set (highestKeys m buf)"
proof -
  have "set (highestKeys m buf) \<subseteq> fst ` set buf"
    unfolding highestKeys_def by (metis set_drop_subset set_sort set_map)
  then show ?thesis
    by (force simp: retained_def)
qed

text \<open>
  C7: when the buffer holds more than \<open>maxBufferSize\<close> entries, one cleanup removes
  exactly \<open>size - maxBufferSize\<close> of them, those with the numerically smallest sequence
  numbers, and leaves precisely the \<open>maxBufferSize\<close> highest (every evicted key is
  below every retained one, and the retained entries are the old ones); a buffer at or
  below the bound is unchanged. The bound is a size, taken non-negative, and the keys
  of the hash are unique.
\<close>

theorem cleanup_evicts_smallest:
  assumes "distinct (map fst (receivedPackets st))" and "0 \<le> maxBufferSize st"
  shows "(int (length (receivedPackets st)) > maxBufferSize st \<longrightarrow>
           cleanupOldPackets st =
             Some (st\<lparr>receivedPackets := retained (nat (maxBufferSize st)) (receivedPackets st)\<rparr>) \<and>
           length (retained (nat (maxBufferSize st)) (receivedPackets st)) = nat (maxBufferSize st) \<and>
           fst ` set (retained (nat (maxBufferSize st)) (receivedPackets st)) =
             set (highestKeys (nat (maxBufferSize st)) (receivedPackets st)) \<and>
           (\<forall>k \<in> fst ` set (receivedPackets st) -
                   set (highestKeys (nat (maxBufferSize st)) (receivedPackets st)).
              \<forall>k' \<in> set (highestKeys (nat (maxBufferSize st)) (receivedPackets st)). k < k')) \<and>
         (int (length (receivedPackets st)) \<le> maxBufferSize st \<longrightarrow> cleanupOldPackets st = Some st)"
proof (intro conjI impI)
  assume over: "int (length (receivedPackets st)) > maxBufferSize st"
  then have le: "nat (maxBufferSize st) \<le> length (receivedPackets st)" by linarith
  show "cleanupOldPackets st =
          Some (st\<lparr>receivedPackets := retained (nat (maxBufferSize st)) (receivedPackets st)\<rparr>)"
    using assms over by (rule cleanup_over)
  show "length (retained (nat (maxBufferSize st)) (receivedPackets st)) = nat (maxBufferSize st)"
    unfolding retained_def using assms(1) le by (rule highestKeys_props(1))
  show "fst ` set (retained (nat (maxBufferSize st)) (receivedPackets st)) =
          set (highestKeys (nat (maxBufferSize st)) (receivedPackets st))"
    using assms(1) by (rule retained_keys)
  show "\<forall>k \<in> fst ` set (receivedPackets st) -
                   set (highestKeys (nat (maxBufferSize st)) (receivedPackets st)).
              \<forall>k' \<in> set (highestKeys (nat (maxBufferSize st)) (receivedPackets st)). k < k'"
    using highestKeys_props(2) [OF assms(1) le] by simp
next
  assume "int (length (receivedPackets st)) \<le> maxBufferSize st"
  then show "cleanupOldPackets st = Some st"
    by (simp add: cleanupOldPackets_def)
qed

theorem cleanup_evicts_smallest_witness:
  "cleanupOldPackets fullBuffer =
     Some (fullBuffer\<lparr>receivedPackets := [(7, samplePacket 7 1 1 1), (5, samplePacket 5 3 3 3)]\<rparr>)"
  using cleanup_evicts_smallest [of fullBuffer]
  by (simp add: fullBuffer_def Receiver0_def retained_def highestKeys_def)

section \<open>Sending\<close>

text \<open>
  C4, as stated, fails on a transmit failure: the function returns before
  \<open>m_packetsSent++\<close>, so the counter of the freshly constructed sender stays 0.
\<close>

theorem failed_send_not_counted:
  "packetsSent (sendTelemetryData (\<lambda>n. False) 0 (samplePacket 0 1 2 3) Sender0) = packetsSent Sender0"
  by (simp add: sendTelemetryData_def writeDatagram_def Sender0_def Let_def)

text \<open>
  C4, amended: a send whose transmit succeeds increments the sent-packet counter and,
  with \<open>reliabilityEnabled\<close>, inserts a pending entry with \<open>retransmissionCount = 0\<close>
  under the assigned sequence number (without it the pending entries are unchanged);
  a send whose transmit fails leaves the counter and the pending entries as they were.
\<close>

theorem send_outcome:
  "(transport (length (writes st)) \<longrightarrow>
      packetsSent (sendTelemetryData transport now p st) = packetsSent st + 1 \<and>
      (reliabilityEnabled st \<longrightarrow>
         map_of (pendingAcks (sendTelemetryData transport now p st)) (nextSequenceNumber st) =
           Some \<lparr>packet = p\<lparr>sequenceNumber := nextSequenceNumber st, timestamp := Some now,
                              needsAck := True\<rparr>,
                 sentTime = now, retransmissionCount = 0\<rparr>) \<and>
      (\<not> reliabilityEnabled st \<longrightarrow>
         pendingAcks (sendTelemetryData transport now p st) = pendingAcks st)) \<and>
   (\<not> transport (length (writes st)) \<longrightarrow>
      packetsSent (sendTelemetryData transport now p st) = packetsSent st \<and>
      pendingAcks (sendTelemetryData transport now p st) = pendingAcks st)"
  by (simp add: sendTelemetryData_def writeDatagram_def Let_def emitS_def update_conv')

theorem send_outcome_witness:
  "packetsSent (sendTelemetryData (\<lambda>n. True) 7 (samplePacket 0 1 2 3) Sender0) = 1 \<and>
   map_of (pendingAcks (sendTelemetryData (\<lambda>n. True) 7 (samplePacket 0 1 2 3) Sender0)) 1 =
     Some \<lparr>packet = (samplePacket 0 1 2 3)\<lparr>sequenceNumber := 1, timestamp := Some 7, needsAck := True\<rparr>,
           sentTime = 7, retransmissionCount = 0\<rparr> \<and>
   packetsSent (sendTelemetryData (\<lambda>n. False) 7 (samplePacket 0 1 2 3) Sender0) = 0 \<and>
   pendingAcks (sendTelemetryData (\<lambda>n. False) 7 (samplePacket 0 1 2 3) Sender0) = []"
  using send_outcome [of "\<lambda>n. True" Sender0 7 "samplePacket 0 1 2 3"]
        send_outcome [of "\<lambda>n. False" Sender0 7 "samplePacket 0 1 2 3"]
  by (simp add: Sender0_def)

text \<open>
  Every call of the send operation consumes a sequence number: the datagram handed to
  the socket carries \<open>nextSequenceNumber\<close>, and \<open>nextSequenceNumber\<close> is then one higher
  (modulo \<open>2^32\<close>), whether the socket accepts the datagram or not.
\<close>

lemma send_consumes_sequence_number:
  "nextSequenceNumber (sendTelemetryData transport now p st) = nextSequenceNumber st + 1 \<and>
   writes (sendTelemetryData transport now p st) =
     writes st @ [\<lparr>body = p\<lparr>sequenceNumber := nextSequenceNumber st, timestamp := Some now,
                               needsAck := reliabilityEnabled st\<rparr>,
                   accepted = transport (length (writes st))\<rparr>]"
  by (simp add: sendTelemetryData_def writeDatagram_def Let_def emitS_def)

text \<open>
  On the receiving side sequence processing keeps \<open>expectedSequenceNumber\<close> above
  \<open>lastValidSequenceNumber\<close>, so the range \<open>[expectedSequenceNumber,
  lastValidSequenceNumber)\<close> of the gap check is empty: whatever packets arrive (short
  of sequence number \<open>2^32 - 1\<close>), a gap check that follows them counts nothing lost.
\<close>

lemma gap_check_empty_range:
  "\<not> expectedSequenceNumber st < lastValidSequenceNumber st \<Longrightarrow>
   checkForMissingPackets now st = updateStatistics st"
  by (simp add: checkForMissingPackets_def missingLoop.simps)

lemma processReceivedPacket_closes_range:
  assumes "lastValidSequenceNumber st < expectedSequenceNumber st"
    and "sequenceNumber p \<noteq> - 1"
  shows "lastValidSequenceNumber (processReceivedPacket p st)
           < expectedSequenceNumber (processReceivedPacket p st)"
proof -
  have "sequenceNumber p < sequenceNumber p + 1"
    using assms(2) inc_less_eq_triv_imp verit_comp_simplify1(3) by blast
  with assms(1) show ?thesis
    by (auto simp: processReceivedPacket_def Let_def updateStatistics_def emit_def)
qed

lemma receiveAll_closes_range:
  assumes "lastValidSequenceNumber st < expectedSequenceNumber st"
    and "\<forall>p \<in> set ps. sequenceNumber p \<noteq> - 1"
  shows "lastValidSequenceNumber (receiveAll ps st) < expectedSequenceNumber (receiveAll ps st)"
  using assms unfolding receiveAll_def
  by (induction ps arbitrary: st) (simp_all add: processReceivedPacket_closes_range)

lemma gap_check_counts_nothing:
  assumes "\<forall>p \<in> set ps. sequenceNumber p \<noteq> - 1"
  shows "packetsLost (checkForMissingPackets now (receiveAll ps Receiver0)) = 0"
proof -
  have "lastValidSequenceNumber Receiver0 < expectedSequenceNumber Receiver0"
    by (simp add: Receiver0_def)
  from receiveAll_closes_range [OF this assms]
  have "\<not> expectedSequenceNumber (receiveAll ps Receiver0)
            < lastValidSequenceNumber (receiveAll ps Receiver0)" by simp
  then have "packetsLost (checkForMissingPackets now (receiveAll ps Receiver0)) =
             packetsLost (receiveAll ps Receiver0)"
    by (simp add: gap_check_empty_range updateStatistics_def emit_def)
  also have "packetsLost (receiveAll ps s) = packetsLost s" for s
    unfolding receiveAll_def
    by (induction ps arbitrary: s)
      (simp_all add: processReceivedPacket_def Let_def updateStatistics_def emit_def)
  finally show ?thesis by (simp add: Receiver0_def)
qed

text \<open>
  C10: every call of the send operation consumes a sequence number, also when the
  transmit fails, so a failed transmit leaves a permanent gap in the sequence-number
  stream, which the receiver later counts as a lost packet.
  The sender does consume the number (lemma \<open>send_consumes_sequence_number\<close>); the
  receiver does not count the gap. Evaluated on three sends the second of which fails:
  1 and 3 reach the wire, the receiver processes them and runs the gap check, and
  \<open>packetsLost\<close> stays 0: processing packet 3 has set \<open>expectedSequenceNumber\<close> to 4,
  past \<open>lastValidSequenceNumber = 3\<close>, although \<open>checkForMissingPackets\<close> is written to
  find the missing packets of that range and count them.
\<close>

theorem gap_not_counted_lost:
  "map sequenceNumber (deliveredPackets threeSends) = [1, 3] \<and>
   packetsLost (checkForMissingPackets 40 (receiveAll (deliveredPackets threeSends) Receiver0)) = 0"
  by (simp add: threeSends_def deliveredPackets_def sendTelemetryData_def writeDatagram_def Let_def emitS_def
     Sender0_def samplePacket_def receiveAll_def processReceivedPacket_def updateStatistics_def emit_def Receiver0_def
     checkForMissingPackets_def missingLoop.simps)

section \<open>Timeouts and retransmission\<close>

lemma pendingWf_lookup:
  "pendingWf st \<Longrightarrow> map_of (pendingAcks st) k = Some v \<Longrightarrow> sequenceNumber (packet v) = k"
  by (auto simp: pendingWf_def dest: map_of_SomeD)

lemma retransmitPacket_at:
  assumes "map_of (pendingAcks st) seq = Some p" and "sequenceNumber (packet p) = seq"
  shows "map_of (pendingAcks (retransmitPacket transport now seq st)) seq =
           Some (p\<lparr>retransmissionCount := retransmissionCount p + 1, sentTime := now\<rparr>)"
    and "datagramsFor seq (retransmitPacket transport now seq st) = datagramsFor seq st @ [packet p]"
    and "timeoutsFor seq (retransmitPacket transport now seq st) = timeoutsFor seq st"
  using assms
  by (simp_all add: retransmitPacket_def writeDatagram_def Let_def emitS_def update_conv'
      datagramsFor_def timeoutsFor_def)

lemma timeoutStep_other:
  assumes "k \<noteq> seq" and "pendingWf st"
  shows "map_of (pendingAcks (timeoutStep transport now k st)) seq = map_of (pendingAcks st) seq"
    and "datagramsFor seq (timeoutStep transport now k st) = datagramsFor seq st"
    and "timeoutsFor seq (timeoutStep transport now k st) = timeoutsFor seq st"
  using assms pendingWf_lookup [of st k]
  by (auto simp: timeoutStep_def retransmitPacket_def writeDatagram_def Let_def emitS_def
      update_conv' datagramsFor_def timeoutsFor_def split: option.splits)

lemma timeoutStep_config:
  "maxRetransmissions (timeoutStep transport now k st) = maxRetransmissions st"
  "cutoffOffset (timeoutStep transport now k st) = cutoffOffset st"
  by (auto simp: timeoutStep_def retransmitPacket_def writeDatagram_def Let_def emitS_def
      cutoffOffset_def split: option.splits)

lemma pendingWf_iff:
  "pendingWf st \<longleftrightarrow>
     distinct (map fst (pendingAcks st)) \<and>
     (\<forall>k v. map_of (pendingAcks st) k = Some v \<longrightarrow> sequenceNumber (packet v) = k)"
  by (auto simp: pendingWf_def)

lemma timeoutStep_wf:
  assumes "pendingWf st"
  shows "pendingWf (timeoutStep transport now k st)"
proof -
  from assms have d: "distinct (map fst (pendingAcks st))"
    and m: "\<And>k v. map_of (pendingAcks st) k = Some v \<Longrightarrow> sequenceNumber (packet v) = k"
    unfolding pendingWf_iff by blast+
  show ?thesis
    unfolding pendingWf_iff using d m
    by (auto simp del: map_of_eq_Some_iff
        simp: timeoutStep_def retransmitPacket_def writeDatagram_def
        Let_def emitS_def distinct_update distinct_delete update_conv' delete_conv'
        split: option.splits if_splits)
qed

lemma fold_timeoutStep_other:
  assumes "seq \<notin> set ks" and "pendingWf st"
  shows "pendingWf (fold (timeoutStep transport now) ks st) \<and>
         maxRetransmissions (fold (timeoutStep transport now) ks st) = maxRetransmissions st \<and>
         cutoffOffset (fold (timeoutStep transport now) ks st) = cutoffOffset st \<and>
         map_of (pendingAcks (fold (timeoutStep transport now) ks st)) seq = map_of (pendingAcks st) seq \<and>
         datagramsFor seq (fold (timeoutStep transport now) ks st) = datagramsFor seq st \<and>
         timeoutsFor seq (fold (timeoutStep transport now) ks st) = timeoutsFor seq st"
  using assms
proof (induction ks arbitrary: st)
  case Nil
  then show ?case by simp
next
  case (Cons k ks)
  let ?st1 = "timeoutStep transport now k st"
  from Cons.prems have ne: "k \<noteq> seq" and notin: "seq \<notin> set ks" by auto
  have wf1: "pendingWf ?st1" using Cons.prems(2) by (rule timeoutStep_wf)
  from Cons.IH [OF notin wf1] timeoutStep_other [OF ne Cons.prems(2)]
  show ?case by (simp add: timeoutStep_config)
qed

lemma timedOut_distinct: "pendingWf st \<Longrightarrow> distinct (timedOut now st)"
  by (simp add: timedOut_def pendingWf_def distinct_map_filter Let_def)

lemma timedOut_member:
  assumes "pendingWf st" and "map_of (pendingAcks st) seq = Some p"
  shows "seq \<in> set (timedOut now st) \<longleftrightarrow> sentTime p < now + cutoffOffset st"
proof -
  from assms have d: "distinct (map fst (pendingAcks st))" by (simp add: pendingWf_def)
  have "(seq, v) \<in> set (pendingAcks st) \<longleftrightarrow> v = p" for v
    by (metis d assms(2) map_of_eq_Some_iff option.inject)
  then show ?thesis
    by (auto simp: timedOut_def Let_def image_iff)
qed

text \<open>One check, on an entry that has expired.\<close>

lemma check_expired:
  assumes wf: "pendingWf st" and p: "map_of (pendingAcks st) seq = Some p"
    and ex: "sentTime p < now + cutoffOffset st"
  shows "pendingWf (checkForTimeouts transport now st) \<and>
         maxRetransmissions (checkForTimeouts transport now st) = maxRetransmissions st \<and>
         cutoffOffset (checkForTimeouts transport now st) = cutoffOffset st \<and>
         (if retransmissionCount p < maxRetransmissions st
          then map_of (pendingAcks (checkForTimeouts transport now st)) seq =
                 Some (p\<lparr>retransmissionCount := retransmissionCount p + 1, sentTime := now\<rparr>) \<and>
               datagramsFor seq (checkForTimeouts transport now st) = datagramsFor seq st @ [packet p] \<and>
               timeoutsFor seq (checkForTimeouts transport now st) = timeoutsFor seq st
          else map_of (pendingAcks (checkForTimeouts transport now st)) seq = None \<and>
               datagramsFor seq (checkForTimeouts transport now st) = datagramsFor seq st \<and>
               timeoutsFor seq (checkForTimeouts transport now st) = timeoutsFor seq st @ [PacketTimeout seq])"
proof -
  from wf p ex have "seq \<in> set (timedOut now st)" by (simp add: timedOut_member)
  then obtain xs ys where split: "timedOut now st = xs @ seq # ys"
    by (auto dest: split_list)
  with timedOut_distinct [OF wf, of now] have nx: "seq \<notin> set xs" and ny: "seq \<notin> set ys"
    by auto
  let ?f = "timeoutStep transport now"
  let ?a = "fold ?f xs st"
  let ?b = "?f seq ?a"
  have res: "checkForTimeouts transport now st = fold ?f ys ?b"
    by (simp add: checkForTimeouts_def split)
  note a = fold_timeoutStep_other [OF nx wf, of transport now]
  from a have wfa: "pendingWf ?a" and pa: "map_of (pendingAcks ?a) seq = Some p"
    using p by simp_all
  have pk: "sequenceNumber (packet p) = seq" using wf p by (rule pendingWf_lookup)
  have wfb: "pendingWf ?b" using wfa by (rule timeoutStep_wf)
  note c = fold_timeoutStep_other [OF ny wfb, of transport now]
  have b: "if retransmissionCount p < maxRetransmissions st
          then map_of (pendingAcks ?b) seq =
                 Some (p\<lparr>retransmissionCount := retransmissionCount p + 1, sentTime := now\<rparr>) \<and>
               datagramsFor seq ?b = datagramsFor seq ?a @ [packet p] \<and>
               timeoutsFor seq ?b = timeoutsFor seq ?a
          else map_of (pendingAcks ?b) seq = None \<and>
               datagramsFor seq ?b = datagramsFor seq ?a \<and>
               timeoutsFor seq ?b = timeoutsFor seq ?a @ [PacketTimeout seq]"
    using pa pk a retransmitPacket_at [OF pa pk, of transport now]
    by (simp add: timeoutStep_def emitS_def delete_conv' datagramsFor_def timeoutsFor_def)
  from a b c show ?thesis
    unfolding res by (simp add: timeoutStep_config split: if_splits)
qed

text \<open>One check, on an entry that has not expired: nothing happens to it.\<close>

lemma check_not_expired:
  assumes wf: "pendingWf st" and p: "map_of (pendingAcks st) seq = Some p"
    and ex: "\<not> sentTime p < now + cutoffOffset st"
  shows "map_of (pendingAcks (checkForTimeouts transport now st)) seq = Some p \<and>
         datagramsFor seq (checkForTimeouts transport now st) = datagramsFor seq st \<and>
         timeoutsFor seq (checkForTimeouts transport now st) = timeoutsFor seq st"
proof -
  from wf p ex have "seq \<notin> set (timedOut now st)" by (simp add: timedOut_member)
  from fold_timeoutStep_other [OF this wf, of transport now] p show ?thesis
    by (simp add: checkForTimeouts_def)
qed

lemma timedOut_absent:
  "map_of (pendingAcks st) seq = None \<Longrightarrow> seq \<notin> set (timedOut now st)"
  by (force simp: timedOut_def Let_def map_of_eq_None_iff)

text \<open>One check, once the entry is gone: nothing more happens for its sequence number.\<close>

lemma check_absent:
  assumes wf: "pendingWf st" and p: "map_of (pendingAcks st) seq = None"
  shows "map_of (pendingAcks (checkForTimeouts transport now st)) seq = None \<and>
         datagramsFor seq (checkForTimeouts transport now st) = datagramsFor seq st \<and>
         timeoutsFor seq (checkForTimeouts transport now st) = timeoutsFor seq st"
proof -
  from p have "seq \<notin> set (timedOut now st)" by (rule timedOut_absent)
  from fold_timeoutStep_other [OF this wf, of transport now] p show ?thesis
    by (simp add: checkForTimeouts_def)
qed

lemma checkForTimeouts_wf:
  assumes "pendingWf st"
  shows "pendingWf (checkForTimeouts transport now st)"
proof -
  have "pendingWf (fold (timeoutStep transport now) ks s)" if "pendingWf s" for ks s
    using that by (induction ks arbitrary: s) (simp_all add: timeoutStep_wf)
  with assms show ?thesis by (simp add: checkForTimeouts_def)
qed

lemma checkForTimeouts_config:
  "maxRetransmissions (checkForTimeouts transport now st) = maxRetransmissions st"
  "cutoffOffset (checkForTimeouts transport now st) = cutoffOffset st"
proof -
  have "maxRetransmissions (fold (timeoutStep transport now) ks s) = maxRetransmissions s \<and>
        cutoffOffset (fold (timeoutStep transport now) ks s) = cutoffOffset s" for ks s
    by (induction ks arbitrary: s) (simp_all add: timeoutStep_config)
  then show "maxRetransmissions (checkForTimeouts transport now st) = maxRetransmissions st"
    and "cutoffOffset (checkForTimeouts transport now st) = cutoffOffset st"
    by (simp_all add: checkForTimeouts_def)
qed

text \<open>Any number of checks after the entry is gone.\<close>

lemma checks_absent:
  assumes "pendingWf st" and "map_of (pendingAcks st) seq = None"
  shows "map_of (pendingAcks (timeoutChecks transport nows st)) seq = None \<and>
         datagramsFor seq (timeoutChecks transport nows st) = datagramsFor seq st \<and>
         timeoutsFor seq (timeoutChecks transport nows st) = timeoutsFor seq st"
  using assms
proof (induction nows arbitrary: st)
  case Nil
  then show ?case by simp
next
  case (Cons t ts)
  let ?st1 = "checkForTimeouts transport t st"
  from check_absent [OF Cons.prems, of transport t]
  have a: "map_of (pendingAcks ?st1) seq = None"
    and d: "datagramsFor seq ?st1 = datagramsFor seq st"
    and o: "timeoutsFor seq ?st1 = timeoutsFor seq st" by simp_all
  have wf1: "pendingWf ?st1" using Cons.prems(1) by (rule checkForTimeouts_wf)
  from Cons.IH [OF wf1 a] d o show ?case by simp
qed

text \<open>
  The fate of one entry over any run of checks: it is retransmitted at the first
  \<open>maxRetransmissions - retransmissionCount\<close> checks that find it expired, and removed
  with one \<open>packetTimeout\<close> at the next one that does.
\<close>

lemma entry_fate:
  assumes "pendingWf st" and "map_of (pendingAcks st) seq = Some p"
  shows "(if length (expiring (cutoffOffset st) (sentTime p) nows)
              \<le> nat (maxRetransmissions st - retransmissionCount p)
          then map_of (pendingAcks (timeoutChecks transport nows st)) seq =
                 Some (p\<lparr>retransmissionCount :=
                           retransmissionCount p +
                           int (length (expiring (cutoffOffset st) (sentTime p) nows)),
                         sentTime := last (sentTime p # expiring (cutoffOffset st) (sentTime p) nows)\<rparr>) \<and>
               datagramsFor seq (timeoutChecks transport nows st) =
                 datagramsFor seq st @
                 replicate (length (expiring (cutoffOffset st) (sentTime p) nows)) (packet p) \<and>
               timeoutsFor seq (timeoutChecks transport nows st) = timeoutsFor seq st
          else map_of (pendingAcks (timeoutChecks transport nows st)) seq = None \<and>
               datagramsFor seq (timeoutChecks transport nows st) =
                 datagramsFor seq st @
                 replicate (nat (maxRetransmissions st - retransmissionCount p)) (packet p) \<and>
               timeoutsFor seq (timeoutChecks transport nows st) =
                 timeoutsFor seq st @ [PacketTimeout seq])"
  using assms
proof (induction nows arbitrary: st p)
  case Nil
  then show ?case by simp
next
  case (Cons t ts)
  let ?st1 = "checkForTimeouts transport t st"
  have wf1: "pendingWf ?st1" using Cons.prems(1) by (rule checkForTimeouts_wf)
  note cfg = checkForTimeouts_config [of transport t st]
  show ?case
  proof (cases "sentTime p < t + cutoffOffset st")
    case False
    from check_not_expired [OF Cons.prems False, of transport]
    have p1: "map_of (pendingAcks ?st1) seq = Some p"
      and d: "datagramsFor seq ?st1 = datagramsFor seq st"
      and o: "timeoutsFor seq ?st1 = timeoutsFor seq st" by simp_all
    from Cons.IH [OF wf1 p1] False d o cfg show ?thesis by simp
  next
    case True
    note ce = check_expired [OF Cons.prems True, of transport]
    show ?thesis
    proof (cases "retransmissionCount p < maxRetransmissions st")
      case lt: True
      let ?p1 = "p\<lparr>retransmissionCount := retransmissionCount p + 1, sentTime := t\<rparr>"
      from ce lt have p1: "map_of (pendingAcks ?st1) seq = Some ?p1"
        and d: "datagramsFor seq ?st1 = datagramsFor seq st @ [packet p]"
        and o: "timeoutsFor seq ?st1 = timeoutsFor seq st" by simp_all
      have r: "nat (maxRetransmissions st - retransmissionCount p) =
               Suc (nat (maxRetransmissions st - (retransmissionCount p + 1)))"
        using lt by linarith
      from Cons.IH [OF wf1 p1] True d o cfg r show ?thesis
        by (simp add: replicate_append_same add.assoc)
    next
      case ge: False
      from ce ge have a: "map_of (pendingAcks ?st1) seq = None"
        and d: "datagramsFor seq ?st1 = datagramsFor seq st"
        and o: "timeoutsFor seq ?st1 = timeoutsFor seq st @ [PacketTimeout seq]" by simp_all
      have r: "nat (maxRetransmissions st - retransmissionCount p) = 0"
        using ge by simp
      from checks_absent [OF wf1 a, of transport ts] True d o r show ?thesis by simp
    qed
  qed
qed

text \<open>
  C3: a pending packet whose ACKs are all lost is retransmitted by successive timeout
  checks exactly \<open>maxRetransmissions\<close> times; each retransmission hands the same packet,
  with its sequence number, to the socket, adds one to \<open>retransmissionCount\<close> and sets
  \<open>sentTime\<close> to the time of the check; after that exactly one \<open>packetTimeout\<close> is emitted
  for the sequence number and the entry is removed.
  Stated for every run of checks, at any times, and every entry as \<open>sendTelemetryData\<close>
  leaves it (\<open>retransmissionCount = 0\<close>): only the checks that find the entry expired
  act on it. While there are at most \<open>maxRetransmissions\<close> of them, each has
  retransmitted; from the next one on the entry is gone, with exactly
  \<open>maxRetransmissions\<close> retransmissions and one \<open>packetTimeout\<close> behind it, however many
  checks follow. Nothing is assumed about the transport, the timeout or the other
  pending entries.
\<close>

theorem retransmission_budget:
  assumes wf: "pendingWf st" and p: "map_of (pendingAcks st) seq = Some p"
    and c0: "retransmissionCount p = 0"
  shows "sequenceNumber (packet p) = seq \<and>
         (if length (expiring (cutoffOffset st) (sentTime p) nows) \<le> nat (maxRetransmissions st)
          then map_of (pendingAcks (timeoutChecks transport nows st)) seq =
                 Some (p\<lparr>retransmissionCount :=
                           int (length (expiring (cutoffOffset st) (sentTime p) nows)),
                         sentTime := last (sentTime p # expiring (cutoffOffset st) (sentTime p) nows)\<rparr>) \<and>
               datagramsFor seq (timeoutChecks transport nows st) =
                 datagramsFor seq st @
                 replicate (length (expiring (cutoffOffset st) (sentTime p) nows)) (packet p) \<and>
               timeoutsFor seq (timeoutChecks transport nows st) = timeoutsFor seq st
          else map_of (pendingAcks (timeoutChecks transport nows st)) seq = None \<and>
               datagramsFor seq (timeoutChecks transport nows st) =
                 datagramsFor seq st @ replicate (nat (maxRetransmissions st)) (packet p) \<and>
               timeoutsFor seq (timeoutChecks transport nows st) =
                 timeoutsFor seq st @ [PacketTimeout seq])"
proof
  show "sequenceNumber (packet p) = seq" using wf p by (rule pendingWf_lookup)
  from entry_fate [OF wf p, of nows transport] c0
  show "if length (expiring (cutoffOffset st) (sentTime p) nows) \<le> nat (maxRetransmissions st)
          then map_of (pendingAcks (timeoutChecks transport nows st)) seq =
                 Some (p\<lparr>retransmissionCount :=
                           int (length (expiring (cutoffOffset st) (sentTime p) nows)),
                         sentTime := last (sentTime p # expiring (cutoffOffset st) (sentTime p) nows)\<rparr>) \<and>
               datagramsFor seq (timeoutChecks transport nows st) =
                 datagramsFor seq st @
                 replicate (length (expiring (cutoffOffset st) (sentTime p) nows)) (packet p) \<and>
               timeoutsFor seq (timeoutChecks transport nows st) = timeoutsFor seq st
          else map_of (pendingAcks (timeoutChecks transport nows st)) seq = None \<and>
               datagramsFor seq (timeoutChecks transport nows st) =
                 datagramsFor seq st @ replicate (nat (maxRetransmissions st)) (packet p) \<and>
               timeoutsFor seq (timeoutChecks transport nows st) =
                 timeoutsFor seq st @ [PacketTimeout seq]"
    by simp
qed

lemma Sender0_wf: "pendingWf Sender0"
  by (simp add: pendingWf_def Sender0_def)

lemma sendTelemetryData_wf:
  assumes "pendingWf st"
  shows "pendingWf (sendTelemetryData transport now p st)"
proof -
  from assms have d: "distinct (map fst (pendingAcks st))"
    and m: "\<And>k v. map_of (pendingAcks st) k = Some v \<Longrightarrow> sequenceNumber (packet v) = k"
    unfolding pendingWf_iff by blast+
  show ?thesis
    unfolding pendingWf_iff using d m
    by (auto simp del: map_of_eq_Some_iff
        simp: sendTelemetryData_def writeDatagram_def Let_def emitS_def distinct_update
        update_conv' split: if_splits)
qed

theorem retransmission_budget_witness:
  "expiring (cutoffOffset oneSend) 0 timerTicks = [4000, 8000, 12000, 16000] \<and>
   map_of (pendingAcks (timeoutChecks (\<lambda>n. True) timerTicks oneSend)) 1 = None \<and>
   datagramsFor 1 (timeoutChecks (\<lambda>n. True) timerTicks oneSend) =
     datagramsFor 1 oneSend @
     replicate 3 ((samplePacket 0 1 2 3)\<lparr>sequenceNumber := 1, timestamp := Some 0, needsAck := True\<rparr>) \<and>
   timeoutsFor 1 (timeoutChecks (\<lambda>n. True) timerTicks oneSend) = [PacketTimeout 1]"
proof -
  let ?p = "\<lparr>packet = (samplePacket 0 1 2 3)\<lparr>sequenceNumber := 1, timestamp := Some 0,
                                              needsAck := True\<rparr>,
             sentTime = 0, retransmissionCount = 0\<rparr>"
  have st: "oneSend =
     Sender0\<lparr>pendingAcks := [(1, ?p)], nextSequenceNumber := 2, packetsSent := 1,
              senderSignals := [SenderStatisticsUpdated],
              writes := [\<lparr>body = packet ?p, accepted = True\<rparr>]\<rparr>"
    by (simp add: oneSend_def sendTelemetryData_def writeDatagram_def Let_def emitS_def Sender0_def)
  have wf: "pendingWf oneSend" by (simp add: st pendingWf_def)
  have p: "map_of (pendingAcks oneSend) 1 = Some ?p" by (simp add: st)
  have c0: "retransmissionCount ?p = 0" by simp
  have off: "cutoffOffset oneSend = - 3000" by (simp add: st Sender0_def cutoffOffset_def)
  have es: "expiring (cutoffOffset oneSend) (sentTime ?p) timerTicks = [4000, 8000, 12000, 16000]"
    by (simp add: off timerTicks_def)
  have none: "timeoutsFor 1 oneSend = []" by (simp add: st timeoutsFor_def Sender0_def)
  have three: "nat (maxRetransmissions oneSend) = 3" by (simp add: st Sender0_def)
  from retransmission_budget [OF wf p c0, of timerTicks "\<lambda>n. True"] es none three
  show ?thesis by simp
qed

text \<open>
  With the timeout set to \<open>INT_MIN\<close> the negation wraps and the cutoff lies \<open>2^31\<close> ms in
  the past: an entry sent a second ago has not expired.
\<close>

lemma timeout_INT_MIN_expires_nothing:
  "timedOut 1000 (oneSend\<lparr>ackTimeoutMs := - 2147483648\<rparr>) = []"
  by (simp add: timedOut_def cutoffOffset_def oneSend_def sendTelemetryData_def writeDatagram_def
      Let_def emitS_def Sender0_def)

end
